theory Spec2Isabelle
  imports Main
begin

section \<open>The request-logging middleware of logging_middleware.go\<close>

text \<open>
  The Go file defines a middleware that wraps a handler, logs one entry before the
  wrapped handler runs and one after it, and chooses the level of both entries from a
  list of (regular expression, level) filters. The embedding below follows the file
  top to bottom. What the file imports (regexp, logrus, negroni, context, net/http,
  time, errgo) is not part of it: the pieces of those packages it calls are modelled
  as plain values, and their behaviour that the file cannot fix is a parameter.
\<close>

subsection \<open>Values of the imported packages\<close>

text \<open>
  Go's \<^verbatim>\<open>error\<close>: an error made of a message, or errgo's \<^verbatim>\<open>Notef\<close>, which keeps the
  underlying error and adds a message. \<^verbatim>\<open>nil\<close> is \<open>None\<close> of \<open>go_error option\<close>.
\<close>

datatype go_error = ErrorString string | Notef go_error string

text \<open>
  \<^verbatim>\<open>logrus.Level\<close> is an integer type. Six of its values have the names the file uses
  (lines 17-22); any other integer converts to a level too, and the constructor of
  line 41 takes whatever level its caller puts in the map. \<open>OtherLevel n\<close> is a level
  that is none of the six named ones; \<open>n\<close> tells such levels apart.
\<close>

datatype Level =
    DebugLevel | InfoLevel | WarnLevel | ErrorLevel | FatalLevel | PanicLevel
  | OtherLevel nat

text \<open>
  Package regexp is a parameter: \<open>Compile\<close> returns the compiled expression or the
  syntax error, \<open>MatchString\<close> tells whether a compiled expression matches a string.
\<close>

record 're regexp_pkg =
  Compile :: "string \<Rightarrow> go_error + 're"
  MatchString :: "'re \<Rightarrow> string \<Rightarrow> bool"

text \<open>
  \<^verbatim>\<open>logrus.Fields\<close> is a Go map from field names to values of any type. The file stores
  strings (the request metadata, the request id), integers (status, bytes) and one
  float, the elapsed seconds, kept here as the elapsed nanoseconds it is computed from.
\<close>

datatype field_value = FString string | FInt int | FSeconds int

type_synonym Fields = "string \<rightharpoonup> field_value"

text \<open>
  \<^verbatim>\<open>logrus.FieldLogger\<close> is an interface. A logger is modelled by the fields attached to
  it and by whether a call of its method for a level comes back to the caller: with
  logrus' own loggers \<^verbatim>\<open>Fatalf\<close> exits the process and \<^verbatim>\<open>Panicf\<close> panics, after writing
  the entry. The file cannot tell which implementation it is given, so \<open>comes_back\<close>
  is a field of the logger.
\<close>

record FieldLogger =
  Data :: Fields
  comes_back :: "Level \<Rightarrow> bool"

definition WithField :: "string \<Rightarrow> field_value \<Rightarrow> FieldLogger \<Rightarrow> FieldLogger" where
  "WithField k v lg = lg\<lparr>Data := (Data lg)(k \<mapsto> v)\<rparr>"

definition WithFields :: "Fields \<Rightarrow> FieldLogger \<Rightarrow> FieldLogger" where
  "WithFields fs lg = lg\<lparr>Data := Data lg ++ fs\<rparr>"

text \<open>
  Request-scoped values (package context): the file reads the key \<^verbatim>\<open>"request_id"\<close>,
  asserting a string, and writes the key \<^verbatim>\<open>"logger"\<close>. \<open>CtxOther\<close> stands for a value
  of any other dynamic type.
\<close>

datatype ctx_value = CtxString string | CtxLogger FieldLogger | CtxOther

type_synonym Context = "string \<rightharpoonup> ctx_value"

text \<open>
  \<^verbatim>\<open>url.URL\<close> and \<^verbatim>\<open>http.Request\<close>, with the fields and methods the file reads. The
  result of \<^verbatim>\<open>URL.String()\<close> is kept as a field beside \<open>Path\<close>; \<^verbatim>\<open>Header.Get\<close> returns the
  first value stored under a key, or the empty string.
\<close>

record URL =
  Path :: string
  url_String :: string

record Request =
  Method :: string
  URL :: URL
  Host :: string
  RemoteAddr :: string
  Proto :: string
  Header :: "string \<rightharpoonup> string list"
  Ctx :: Context

definition Header_Get :: "(string \<rightharpoonup> string list) \<Rightarrow> string \<Rightarrow> string" where
  "Header_Get h k = (case h k of None \<Rightarrow> [] | Some [] \<Rightarrow> [] | Some (v # _) \<Rightarrow> v)"

definition Referer :: "Request \<Rightarrow> string" where
  "Referer r = Header_Get (Header r) ''Referer''"

definition UserAgent :: "Request \<Rightarrow> string" where
  "UserAgent r = Header_Get (Header r) ''User-Agent''"

definition WithContext :: "Request \<Rightarrow> Context \<Rightarrow> Request" where
  "WithContext r c = r\<lparr>Ctx := c\<rparr>"

definition WithValue :: "Context \<Rightarrow> string \<Rightarrow> ctx_value \<Rightarrow> Context" where
  "WithValue c k v = c(k \<mapsto> v)"

text \<open>
  What a run leaves behind, in the order it happens: an entry handed to the logger
  (level, fields, message), the call of the wrapped handler with the request it is
  given, and its return with the error value it returns.
\<close>

datatype event =
    Logged Level Fields string
  | NextCalled Request
  | NextReturned "go_error option"

text \<open>
  A call of a logging method: the events it leaves, and whether it comes back.
\<close>

type_synonym emission = "event list \<times> bool"

definition logf :: "Level \<Rightarrow> FieldLogger \<Rightarrow> string \<Rightarrow> emission" where
  "logf lv lg msg = ([Logged lv (Data lg) msg], comes_back lg lv)"

definition Debugf :: "FieldLogger \<Rightarrow> string \<Rightarrow> emission" where
  "Debugf = logf DebugLevel"

definition Infof :: "FieldLogger \<Rightarrow> string \<Rightarrow> emission" where
  "Infof = logf InfoLevel"

definition Warnf :: "FieldLogger \<Rightarrow> string \<Rightarrow> emission" where
  "Warnf = logf WarnLevel"

definition Errorf :: "FieldLogger \<Rightarrow> string \<Rightarrow> emission" where
  "Errorf = logf ErrorLevel"

definition Fatalf :: "FieldLogger \<Rightarrow> string \<Rightarrow> emission" where
  "Fatalf = logf FatalLevel"

definition Panicf :: "FieldLogger \<Rightarrow> string \<Rightarrow> emission" where
  "Panicf = logf PanicLevel"

text \<open>
  \<^verbatim>\<open>negroni.ResponseWriter\<close>: the writer it wraps, the status the handler set (0 until
  one is set) and the number of bytes written.
\<close>

record 'w ResponseWriter =
  wrapped :: 'w
  Status :: int
  Size :: int

definition NewResponseWriter :: "'w \<Rightarrow> 'w ResponseWriter" where
  "NewResponseWriter w = \<lparr>wrapped = w, Status = 0, Size = 0\<rparr>"

text \<open>
  A \<^verbatim>\<open>HandlerFunc\<close> takes the writer, the request and the path variables; the model adds
  the clock's reading when it is called. Its run gives the events it left, the writer
  as it left it, the clock's reading at the end, and how it ended: by returning an
  error value (\<open>None\<close> is \<^verbatim>\<open>nil\<close>), or without coming back (a panic, or the process
  exited).
\<close>

datatype completion = Returned "go_error option" | Aborted

record 'w handled =
  trace :: "event list"
  writer :: 'w
  ended :: int
  outcome :: completion

type_synonym 'w HandlerFunc = "'w \<Rightarrow> Request \<Rightarrow> (string \<rightharpoonup> string) \<Rightarrow> int \<Rightarrow> 'w handled"

subsection \<open>Lines 15-34: the table of logging methods and the middleware's data\<close>

definition loggerFuncMap :: "Level \<rightharpoonup> (FieldLogger \<Rightarrow> string \<Rightarrow> emission)" where
  "loggerFuncMap =
     [DebugLevel \<mapsto> Debugf, InfoLevel \<mapsto> Infof, WarnLevel \<mapsto> Warnf,
      ErrorLevel \<mapsto> Errorf, FatalLevel \<mapsto> Fatalf, PanicLevel \<mapsto> Panicf]"

text \<open>
  \<^verbatim>\<open>loggerFuncMap[loglevel](logger, msg)\<close>: a level that is not a key gives the nil
  function, and calling it panics before anything is logged. The six named levels are
  the keys; a filter with any other level makes every request it matches end here.
\<close>

definition call_loggerFunc :: "Level \<Rightarrow> FieldLogger \<Rightarrow> string \<Rightarrow> emission" where
  "call_loggerFunc lv lg msg =
     (case loggerFuncMap lv of None \<Rightarrow> ([], False) | Some f \<Rightarrow> f lg msg)"

record 're patternInfo =
  re :: 're
  level :: Level

record 're LoggingMiddleware =
  logger :: FieldLogger
  filters :: "'re patternInfo list"

subsection \<open>Lines 36-52: the constructors\<close>

definition NewLoggingMiddleware :: "FieldLogger \<Rightarrow> 're LoggingMiddleware" where
  "NewLoggingMiddleware lg = \<lparr>logger = lg, filters = []\<rparr>"

text \<open>
  \<^verbatim>\<open>for pattern, level := range filters\<close> visits every entry of the Go map once, in an
  order the language leaves open. The order is the list \<open>visit\<close> of the keys;
  \<open>range_order filters visit\<close> says that it is one the runtime may choose.
\<close>

definition range_order :: "('k \<rightharpoonup> 'v) \<Rightarrow> 'k list \<Rightarrow> bool" where
  "range_order m visit \<longleftrightarrow> distinct visit \<and> set visit = dom m"

definition invalid_regexp :: "go_error \<Rightarrow> string \<Rightarrow> go_error" where
  "invalid_regexp err pattern = Notef err (''invalid regexp '' @ [CHR 0x27] @ pattern @ [CHR 0x27])"

text \<open>
  The loop of lines 43-49, with \<open>refilters\<close> as accumulator. A key of \<open>visit\<close> that the
  map does not hold is passed over: the range statement never produces one.
\<close>

fun compile_filters ::
  "'re regexp_pkg \<Rightarrow> (string \<rightharpoonup> Level) \<Rightarrow> string list \<Rightarrow> 're patternInfo list
    \<Rightarrow> go_error + 're patternInfo list" where
  "compile_filters pkg fs [] refilters = Inr refilters"
| "compile_filters pkg fs (pattern # rest) refilters =
     (case fs pattern of
        None \<Rightarrow> compile_filters pkg fs rest refilters
      | Some lv \<Rightarrow>
          (case Compile pkg pattern of
             Inl err \<Rightarrow> Inl (invalid_regexp err pattern)
           | Inr rx \<Rightarrow> compile_filters pkg fs rest (refilters @ [\<lparr>re = rx, level = lv\<rparr>])))"

text \<open>
  The two results of the Go function are a pair: the middleware or \<^verbatim>\<open>nil\<close>, and the
  error or \<^verbatim>\<open>nil\<close>.
\<close>

definition NewLoggingMiddlewareWithFilters ::
  "'re regexp_pkg \<Rightarrow> FieldLogger \<Rightarrow> (string \<rightharpoonup> Level) \<Rightarrow> string list
    \<Rightarrow> 're LoggingMiddleware option \<times> go_error option" where
  "NewLoggingMiddlewareWithFilters pkg lg fs visit =
     (case compile_filters pkg fs visit [] of
        Inl err \<Rightarrow> (None, Some err)
      | Inr refilters \<Rightarrow> (Some \<lparr>logger = lg, filters = refilters\<rparr>, None))"

subsection \<open>Lines 54-108: Apply\<close>

text \<open>Lines 59-62: the request id, when the context holds one that is a string.\<close>

definition request_logger :: "FieldLogger \<Rightarrow> Request \<Rightarrow> FieldLogger" where
  "request_logger lg r =
     (case Ctx r ''request_id'' of
        Some (CtxString rid) \<Rightarrow> WithField ''request_id'' (FString rid) lg
      | _ \<Rightarrow> lg)"

text \<open>Lines 66-74: the map literal.\<close>

definition field_literal :: "Request \<Rightarrow> Fields" where
  "field_literal r =
     [''method'' \<mapsto> FString (Method r),
      ''path'' \<mapsto> FString (url_String (URL r)),
      ''host'' \<mapsto> FString (Host r),
      ''from'' \<mapsto> FString (RemoteAddr r),
      ''protocol'' \<mapsto> FString (Proto r),
      ''referer'' \<mapsto> FString (Referer r),
      ''user_agent'' \<mapsto> FString (UserAgent r)]"

definition field_keys :: "string list" where
  "field_keys =
     [''method'', ''path'', ''host'', ''from'', ''protocol'', ''referer'', ''user_agent'']"

text \<open>
  Lines 75-79: the loop that deletes the entries whose value is the empty string, over
  the keys in the order \<open>visit\<close>. The type assertion \<^verbatim>\<open>v.(string)\<close> panics on a value
  that is not a string: the result is then \<open>None\<close>.
\<close>

fun delete_empty :: "string list \<Rightarrow> Fields \<Rightarrow> Fields option" where
  "delete_empty [] fmap = Some fmap"
| "delete_empty (k # rest) fmap =
     (case fmap k of
        None \<Rightarrow> delete_empty rest fmap
      | Some (FString v) \<Rightarrow>
          if length v = 0 then delete_empty rest (fmap(k := None))
          else delete_empty rest fmap
      | Some _ \<Rightarrow> None)"

definition BuildFields :: "string list \<Rightarrow> Request \<Rightarrow> Fields option" where
  "BuildFields visit r = delete_empty visit (field_literal r)"

text \<open>Lines 82-87: the level, starting from Info, overwritten by every filter that matches.\<close>

fun select_loop :: "'re regexp_pkg \<Rightarrow> string \<Rightarrow> 're patternInfo list \<Rightarrow> Level \<Rightarrow> Level" where
  "select_loop pkg path [] loglevel = loglevel"
| "select_loop pkg path (info # rest) loglevel =
     select_loop pkg path rest
       (if MatchString pkg (re info) path then level info else loglevel)"

definition SelectLevel :: "'re regexp_pkg \<Rightarrow> 're patternInfo list \<Rightarrow> string \<Rightarrow> Level" where
  "SelectLevel pkg fs path = select_loop pkg path fs InfoLevel"

text \<open>Lines 94-103: the status, 200 when the recorder saw none, and the three fields.\<close>

definition resolve_status :: "int \<Rightarrow> int" where
  "resolve_status status = (if status = 0 then 200 else status)"

definition completion_fields :: "'w ResponseWriter \<Rightarrow> int \<Rightarrow> int \<Rightarrow> Fields" where
  "completion_fields rw before after =
     [''status'' \<mapsto> FInt (resolve_status (Status rw)),
      ''duration'' \<mapsto> FSeconds (after - before),
      ''bytes'' \<mapsto> FInt (Size rw)]"

text \<open>
  The handler \<open>Apply\<close> returns. \<^verbatim>\<open>time.Now()\<close> reads the clock: \<open>now\<close> before the wrapped
  handler is called, and the reading the wrapped handler ends with after it. The loop
  over the field map runs in the order the literal is written in; \<open>delete_empty\<close> is
  shown below to give the same map for every order the runtime may choose. A logging
  call that does not come back, and a wrapped handler that does not, end the run
  there.
\<close>

definition Apply ::
  "'re regexp_pkg \<Rightarrow> 're LoggingMiddleware \<Rightarrow> ('w ResponseWriter) HandlerFunc \<Rightarrow> 'w HandlerFunc" where
  "Apply pkg l next w r vars now =
     (let before = now;
          logger1 = request_logger (logger l) r;
          r1 = WithContext r (WithValue (Ctx r) ''logger'' (CtxLogger logger1))
      in case BuildFields field_keys r1 of
           None \<Rightarrow> \<lparr>trace = [], writer = w, ended = now, outcome = Aborted\<rparr>
         | Some fmap \<Rightarrow>
            (let logger2 = WithFields fmap logger1;
                 loglevel = SelectLevel pkg (filters l) (Path (URL r1));
                 starting = call_loggerFunc loglevel logger2 ''starting request''
             in if \<not> snd starting
                then \<lparr>trace = fst starting, writer = w, ended = now, outcome = Aborted\<rparr>
                else
                 (let rw = NewResponseWriter w;
                      res = next rw r1 vars now
                  in case outcome res of
                       Aborted \<Rightarrow>
                         \<lparr>trace = fst starting @ [NextCalled r1] @ trace res,
                          writer = wrapped (writer res), ended = ended res, outcome = Aborted\<rparr>
                     | Returned err \<Rightarrow>
                        (let after = ended res;
                             logger3 = WithFields (completion_fields (writer res) before after) logger2;
                             completed = call_loggerFunc loglevel logger3 ''request completed''
                         in \<lparr>trace = fst starting @ [NextCalled r1] @ trace res @ [NextReturned err] @ fst completed,
                             writer = wrapped (writer res), ended = after,
                             outcome = (if snd completed then Returned err else Aborted)\<rparr>))))"

subsection \<open>Instances of the parameters, for evaluating the model\<close>

text \<open>
  An instance of package regexp on the patterns that are a literal text, with or
  without a leading \<^verbatim>\<open>^\<close>: such a pattern matches the strings that begin with the text,
  or that contain it. A pattern with any other metacharacter is outside this instance,
  which reports an error for it; for \<^verbatim>\<open>(\<close>, the pattern the examples below use, Go's
  \<^verbatim>\<open>regexp.Compile\<close> reports one too (a missing closing parenthesis).
\<close>

datatype literal_re = Literal bool string

definition meta_chars :: "char list" where
  "meta_chars = CHR 0x5C # ''.+*?()|[]{}^$''"

fun has_prefix :: "string \<Rightarrow> string \<Rightarrow> bool" where
  "has_prefix [] s = True"
| "has_prefix (c # cs) [] = False"
| "has_prefix (c # cs) (d # ds) = (c = d \<and> has_prefix cs ds)"

fun occurs_in :: "string \<Rightarrow> string \<Rightarrow> bool" where
  "occurs_in lit [] = has_prefix lit []"
| "occurs_in lit (d # ds) = (has_prefix lit (d # ds) \<or> occurs_in lit ds)"

definition literal_Compile :: "string \<Rightarrow> go_error + literal_re" where
  "literal_Compile p =
     (let anchored = (take 1 p = ''^'');
          body = (if anchored then drop 1 p else p)
      in if list_all (\<lambda>c. c \<notin> set meta_chars) body then Inr (Literal anchored body)
         else Inl (ErrorString (''error parsing regexp: '' @ p)))"

fun literal_MatchString :: "literal_re \<Rightarrow> string \<Rightarrow> bool" where
  "literal_MatchString (Literal anchored body) s =
     (if anchored then has_prefix body s else occurs_in body s)"

definition literal_regexp :: "literal_re regexp_pkg" where
  "literal_regexp = \<lparr>Compile = literal_Compile, MatchString = literal_MatchString\<rparr>"

text \<open>
  A logger with no fields that behaves as logrus' own: every method comes back but
  \<^verbatim>\<open>Fatalf\<close> and \<^verbatim>\<open>Panicf\<close>.
\<close>

definition logrus_logger :: FieldLogger where
  "logrus_logger =
     \<lparr>Data = Map.empty, comes_back = (\<lambda>lv. lv \<noteq> FatalLevel \<and> lv \<noteq> PanicLevel)\<rparr>"

text \<open>
  Two filter maps: the two overlapping patterns of the level examples, and a map with a
  pattern that does not compile.
\<close>

definition overlapping_filters :: "string \<rightharpoonup> Level" where
  "overlapping_filters = [''^/a'' \<mapsto> DebugLevel, ''^/ab'' \<mapsto> ErrorLevel]"

definition broken_filters :: "string \<rightharpoonup> Level" where
  "broken_filters = [''^/a'' \<mapsto> DebugLevel, ''('' \<mapsto> WarnLevel]"

text \<open>A middleware with the two overlapping filters, in the order of the level example.\<close>

definition scenario_middleware :: "literal_re LoggingMiddleware" where
  "scenario_middleware =
     \<lparr>logger = logrus_logger,
      filters = [\<lparr>re = Literal True ''/a'', level = DebugLevel\<rparr>,
                 \<lparr>re = Literal True ''/ab'', level = ErrorLevel\<rparr>]\<rparr>"

text \<open>
  A filter map, and the middleware the constructor builds from it, whose one filter has
  a level that is not a key of \<^verbatim>\<open>loggerFuncMap\<close>.
\<close>

definition unkeyed_filters :: "string \<rightharpoonup> Level" where
  "unkeyed_filters = [''^/a'' \<mapsto> OtherLevel 0]"

definition unkeyed_middleware :: "literal_re LoggingMiddleware" where
  "unkeyed_middleware =
     \<lparr>logger = logrus_logger, filters = [\<lparr>re = Literal True ''/a'', level = OtherLevel 0\<rparr>]\<rparr>"

text \<open>
  A request for \<^verbatim>\<open>/abc?x=1\<close> that carries a request id and no Referer header, and a
  handler that writes nothing, takes five units of time and returns an error.
\<close>

definition sample_request :: Request where
  "sample_request =
     \<lparr>Method = ''GET'', URL = \<lparr>Path = ''/abc'', url_String = ''/abc?x=1''\<rparr>,
      Host = ''example.org'', RemoteAddr = ''10.0.0.1:4000'', Proto = ''HTTP/1.1'',
      Header = [''User-Agent'' \<mapsto> [''curl'']],
      Ctx = [''request_id'' \<mapsto> CtxString ''r-42'']\<rparr>"

definition failing_handler :: "(unit ResponseWriter) HandlerFunc" where
  "failing_handler rw r vars now =
     \<lparr>trace = [], writer = rw, ended = now + 5,
      outcome = Returned (Some (ErrorString ''boom''))\<rparr>"

section \<open>Properties\<close>

subsection \<open>The level loop\<close>

lemma select_loop_append:
  "select_loop pkg path (xs @ ys) lv = select_loop pkg path ys (select_loop pkg path xs lv)"
  by (induction xs arbitrary: lv) simp_all

lemma select_loop_no_match:
  "(\<And>info. info \<in> set fs \<Longrightarrow> \<not> MatchString pkg (re info) path) \<Longrightarrow> select_loop pkg path fs lv = lv"
  by (induction fs arbitrary: lv) simp_all

lemma select_loop_filter:
  "select_loop pkg path fs lv =
     (case filter (\<lambda>info. MatchString pkg (re info) path) fs of
        [] \<Rightarrow> lv
      | m # ms \<Rightarrow> level (last (m # ms)))"
proof (induction fs arbitrary: lv)
  case Nil
  show ?case by simp
next
  case (Cons info fs)
  show ?case
    by (simp add: Cons.IH split: list.splits)
qed

lemma select_loop_last_match:
  assumes i: "i < length fs"
    and m: "MatchString pkg (re (fs ! i)) path"
    and later: "\<And>j. i < j \<Longrightarrow> j < length fs \<Longrightarrow> \<not> MatchString pkg (re (fs ! j)) path"
  shows "select_loop pkg path fs lv = level (fs ! i)"
proof -
  have split: "fs = take i fs @ fs ! i # drop (Suc i) fs"
    using i by (rule id_take_nth_drop)
  have tail: "\<And>info. info \<in> set (drop (Suc i) fs) \<Longrightarrow> \<not> MatchString pkg (re info) path"
  proof -
    fix info assume "info \<in> set (drop (Suc i) fs)"
    then obtain k where k: "k < length (drop (Suc i) fs)" and e: "info = drop (Suc i) fs ! k"
      by (auto simp: in_set_conv_nth)
    from k have "Suc i + k < length fs" by simp
    moreover have "i < Suc i + k" by simp
    ultimately have "\<not> MatchString pkg (re (fs ! (Suc i + k))) path" using later by blast
    moreover have "drop (Suc i) fs ! k = fs ! (Suc i + k)" using k by simp
    ultimately show "\<not> MatchString pkg (re info) path" using e by simp
  qed
  have "select_loop pkg path fs lv =
        select_loop pkg path (fs ! i # drop (Suc i) fs) (select_loop pkg path (take i fs) lv)"
    by (subst split) (simp only: select_loop_append)
  also have "\<dots> = select_loop pkg path (drop (Suc i) fs) (level (fs ! i))"
    using m by simp
  also have "\<dots> = level (fs ! i)"
    using tail by (rule select_loop_no_match)
  finally show ?thesis .
qed

lemma SelectLevel_no_filters: "SelectLevel pkg [] path = InfoLevel"
  by (simp add: SelectLevel_def)

subsection \<open>The logging calls, the field map and the run of Apply\<close>

lemma dom_loggerFuncMap:
  "dom loggerFuncMap =
     {DebugLevel, InfoLevel, WarnLevel, ErrorLevel, FatalLevel, PanicLevel}"
  by (auto simp add: loggerFuncMap_def split: if_splits)

lemma OtherLevel_no_key: "OtherLevel n \<notin> dom loggerFuncMap"
  by (simp add: dom_loggerFuncMap)

lemma call_loggerFunc_key:
  "lv \<in> dom loggerFuncMap \<Longrightarrow>
   call_loggerFunc lv lg msg = ([Logged lv (Data lg) msg], comes_back lg lv)"
  by (cases lv)
     (simp_all add: dom_loggerFuncMap,
      simp_all add: call_loggerFunc_def loggerFuncMap_def logf_def
        Debugf_def Infof_def Warnf_def Errorf_def Fatalf_def Panicf_def)

lemma call_loggerFunc_nil:
  "lv \<notin> dom loggerFuncMap \<Longrightarrow> call_loggerFunc lv lg msg = ([], False)"
  by (simp add: call_loggerFunc_def domIff)

lemma delete_empty_strings:
  "\<forall>k v. fmap k = Some v \<longrightarrow> (\<exists>s. v = FString s) \<Longrightarrow>
   delete_empty ks fmap =
     Some (\<lambda>k. if k \<in> set ks \<and> fmap k = Some (FString []) then None else fmap k)"
proof (induction ks arbitrary: fmap)
  case Nil
  show ?case by simp
next
  case (Cons k ks)
  have strs: "\<forall>x v. (fmap(k := None)) x = Some v \<longrightarrow> (\<exists>s. v = FString s)"
    using Cons.prems by simp
  note kept = Cons.IH [OF Cons.prems]
  note dropped = Cons.IH [OF strs]
  show ?case
  proof (cases "fmap k")
    case None
    have "(\<lambda>x. if x \<in> set ks \<and> fmap x = Some (FString []) then None else fmap x)
        = (\<lambda>x. if x \<in> set (k # ks) \<and> fmap x = Some (FString []) then None else fmap x)"
      using None by (intro ext) auto
    then show ?thesis using None kept by simp
  next
    case (Some v)
    then obtain s where v: "v = FString s" using Cons.prems by blast
    show ?thesis
    proof (cases "s = []")
      case True
      have step: "delete_empty (k # ks) fmap = delete_empty ks (fmap(k := None))"
        using Some v True by simp
      have "(\<lambda>x. if x \<in> set ks \<and> (fmap(k := None)) x = Some (FString []) then None
                 else (fmap(k := None)) x)
          = (\<lambda>x. if x \<in> set (k # ks) \<and> fmap x = Some (FString []) then None else fmap x)"
        using Some v True by (intro ext) auto
      then show ?thesis by (simp only: step dropped)
    next
      case False
      have "(\<lambda>x. if x \<in> set ks \<and> fmap x = Some (FString []) then None else fmap x)
          = (\<lambda>x. if x \<in> set (k # ks) \<and> fmap x = Some (FString []) then None else fmap x)"
        using Some v False by (intro ext) auto
      then show ?thesis using Some v False kept by simp
    qed
  qed
qed

lemma field_literal_strings: "\<forall>k v. field_literal r k = Some v \<longrightarrow> (\<exists>s. v = FString s)"
  by (auto simp: field_literal_def split: if_splits)

lemma dom_field_literal: "dom (field_literal r) = set field_keys"
  by (auto simp: field_literal_def field_keys_def split: if_splits)

lemma BuildFields_eq:
  assumes "range_order (field_literal r) visit"
  shows "BuildFields visit r =
           Some (\<lambda>k. if field_literal r k = Some (FString []) then None else field_literal r k)"
proof -
  have "set visit = dom (field_literal r)" using assms by (simp add: range_order_def)
  then have "\<And>k. field_literal r k = Some (FString []) \<Longrightarrow> k \<in> set visit" by blast
  then have "(\<lambda>k. if k \<in> set visit \<and> field_literal r k = Some (FString []) then None else field_literal r k)
      = (\<lambda>k. if field_literal r k = Some (FString []) then None else field_literal r k)"
    by (intro ext) auto
  then show ?thesis
    unfolding BuildFields_def
    using delete_empty_strings [of "field_literal r" visit, OF field_literal_strings] by simp
qed

lemma range_order_field_keys: "range_order (field_literal r) field_keys"
  unfolding range_order_def dom_field_literal by (simp add: field_keys_def)

lemma field_literal_WithContext: "field_literal (WithContext r c) = field_literal r"
  by (simp add: field_literal_def WithContext_def Referer_def UserAgent_def)

lemma comes_back_request_logger: "comes_back (request_logger lg r) = comes_back lg"
  by (simp add: request_logger_def WithField_def split: option.splits ctx_value.splits)

lemma Apply_run:
  fixes l :: "'re LoggingMiddleware" and "next" :: "('w ResponseWriter) HandlerFunc"
    and pkg r w vars now
  defines "lg1 \<equiv> request_logger (logger l) r"
    and "r1 \<equiv> WithContext r (WithValue (Ctx r) ''logger'' (CtxLogger (request_logger (logger l) r)))"
    and "lv \<equiv> SelectLevel pkg (filters l) (Path (URL r))"
  defines "res \<equiv> next (NewResponseWriter w) r1 vars now"
  shows "\<exists>fmap. BuildFields field_keys r = Some fmap \<and>
     Apply pkg l next w r vars now =
      (if lv \<notin> dom loggerFuncMap
       then \<lparr>trace = [], writer = w, ended = now, outcome = Aborted\<rparr>
       else if \<not> comes_back (logger l) lv
       then \<lparr>trace = [Logged lv (Data lg1 ++ fmap) ''starting request''],
             writer = w, ended = now, outcome = Aborted\<rparr>
       else case outcome res of
          Aborted \<Rightarrow>
            \<lparr>trace = [Logged lv (Data lg1 ++ fmap) ''starting request'', NextCalled r1] @ trace res,
             writer = wrapped (writer res), ended = ended res, outcome = Aborted\<rparr>
        | Returned err \<Rightarrow>
            \<lparr>trace = [Logged lv (Data lg1 ++ fmap) ''starting request'', NextCalled r1] @ trace res @
               [NextReturned err,
                Logged lv (Data lg1 ++ fmap ++ completion_fields (writer res) now (ended res))
                  ''request completed''],
             writer = wrapped (writer res), ended = ended res, outcome = Returned err\<rparr>)"
proof -
  obtain fmap where f: "BuildFields field_keys r = Some fmap"
    using BuildFields_eq [OF range_order_field_keys] by blast
  have f1: "BuildFields field_keys r1 = Some fmap"
    using f by (simp add: BuildFields_def r1_def field_literal_WithContext)
  have p: "Path (URL r1) = Path (URL r)" by (simp add: r1_def WithContext_def)
  show ?thesis
    apply (rule exI [of _ fmap])
    apply (rule conjI [OF f])
    unfolding Apply_def Let_def
    apply (fold r1_def lg1_def)
    apply (simp only: f1 p option.case)
    apply (fold lv_def)
    apply (fold res_def)
    apply (cases "lv \<in> dom loggerFuncMap")
     apply (simp add: call_loggerFunc_key WithFields_def lg1_def comes_back_request_logger
              split: completion.splits)
    apply (simp add: call_loggerFunc_nil)
    done
qed

lemma BuildFields_order_irrelevant:
  "range_order (field_literal r) visit \<Longrightarrow> BuildFields visit r = BuildFields field_keys r"
  by (simp add: BuildFields_eq range_order_field_keys)

lemma request_logger_keeps_other_fields:
  "k \<noteq> ''request_id'' \<Longrightarrow> Data (request_logger lg r) k = Data lg k"
  by (simp add: request_logger_def WithField_def split: option.splits ctx_value.splits)

subsection \<open>The ways a run of Apply ends\<close>

lemma Apply_nil_func:
  assumes "lv = SelectLevel pkg (filters l) (Path (URL r))"
    and "lv \<notin> dom loggerFuncMap"
  shows "Apply pkg l next w r vars now =
           \<lparr>trace = [], writer = w, ended = now, outcome = Aborted\<rparr>"
  using Apply_run [of r pkg l "next" w vars now] assms by auto

lemma Apply_start_aborts:
  assumes "lv = SelectLevel pkg (filters l) (Path (URL r))"
    and "lv \<in> dom loggerFuncMap"
    and "\<not> comes_back (logger l) lv"
  shows "\<exists>fmap. BuildFields field_keys r = Some fmap \<and>
     Apply pkg l next w r vars now =
       \<lparr>trace = [Logged lv (Data (request_logger (logger l) r) ++ fmap) ''starting request''],
        writer = w, ended = now, outcome = Aborted\<rparr>"
  using Apply_run [of r pkg l "next" w vars now] assms by auto

lemma Apply_next_aborts:
  assumes "lv = SelectLevel pkg (filters l) (Path (URL r))"
    and "r1 = WithContext r (WithValue (Ctx r) ''logger'' (CtxLogger (request_logger (logger l) r)))"
    and "res = next (NewResponseWriter w) r1 vars now"
    and "lv \<in> dom loggerFuncMap"
    and "comes_back (logger l) lv" and "outcome res = Aborted"
  shows "\<exists>fmap. BuildFields field_keys r = Some fmap \<and>
     Apply pkg l next w r vars now =
       \<lparr>trace = [Logged lv (Data (request_logger (logger l) r) ++ fmap) ''starting request'',
                 NextCalled r1] @ trace res,
        writer = wrapped (writer res), ended = ended res, outcome = Aborted\<rparr>"
  using Apply_run [of r pkg l "next" w vars now] assms by auto

lemma Apply_next_returns:
  assumes "lv = SelectLevel pkg (filters l) (Path (URL r))"
    and "r1 = WithContext r (WithValue (Ctx r) ''logger'' (CtxLogger (request_logger (logger l) r)))"
    and "res = next (NewResponseWriter w) r1 vars now"
    and "lv \<in> dom loggerFuncMap"
    and "comes_back (logger l) lv" and "outcome res = Returned err"
  shows "\<exists>fmap. BuildFields field_keys r = Some fmap \<and>
     Apply pkg l next w r vars now =
       \<lparr>trace = [Logged lv (Data (request_logger (logger l) r) ++ fmap) ''starting request'',
                 NextCalled r1] @ trace res @
                [NextReturned err,
                 Logged lv (Data (request_logger (logger l) r) ++ fmap ++
                            completion_fields (writer res) now (ended res))
                   ''request completed''],
        writer = wrapped (writer res), ended = ended res, outcome = Returned err\<rparr>"
  using Apply_run [of r pkg l "next" w vars now] assms by auto


lemma Apply_run_key:
  assumes "lv = SelectLevel pkg (filters l) (Path (URL r))"
    and "r1 = WithContext r (WithValue (Ctx r) ''logger'' (CtxLogger (request_logger (logger l) r)))"
    and "res = next (NewResponseWriter w) r1 vars now"
    and "lv \<in> dom loggerFuncMap"
  shows "\<exists>fmap. BuildFields field_keys r = Some fmap \<and>
     Apply pkg l next w r vars now =
      (if \<not> comes_back (logger l) lv
       then \<lparr>trace = [Logged lv (Data (request_logger (logger l) r) ++ fmap) ''starting request''],
             writer = w, ended = now, outcome = Aborted\<rparr>
       else case outcome res of
          Aborted \<Rightarrow>
            \<lparr>trace = [Logged lv (Data (request_logger (logger l) r) ++ fmap) ''starting request'',
                      NextCalled r1] @ trace res,
             writer = wrapped (writer res), ended = ended res, outcome = Aborted\<rparr>
        | Returned err \<Rightarrow>
            \<lparr>trace = [Logged lv (Data (request_logger (logger l) r) ++ fmap) ''starting request'',
                      NextCalled r1] @ trace res @
               [NextReturned err,
                Logged lv (Data (request_logger (logger l) r) ++ fmap ++
                    completion_fields (writer res) now (ended res)) ''request completed''],
             writer = wrapped (writer res), ended = ended res, outcome = Returned err\<rparr>)"
  using Apply_run [of r pkg l "next" w vars now] assms by auto

lemma Apply_next_only_at:
  assumes "next' (NewResponseWriter w)
      (WithContext r (WithValue (Ctx r) ''logger'' (CtxLogger (request_logger (logger l) r))))
      vars now
   = next (NewResponseWriter w)
      (WithContext r (WithValue (Ctx r) ''logger'' (CtxLogger (request_logger (logger l) r))))
      vars now"
  shows "Apply pkg l next' w r vars now = Apply pkg l next w r vars now"
  unfolding Apply_def Let_def assms by (rule refl)

lemma completion_fields_status:
  "(fs ++ completion_fields rw before after) ''status'' = Some (FInt (resolve_status (Status rw)))"
  by (simp add: completion_fields_def)

subsection \<open>The loop of the constructor\<close>

lemma compile_filters_Inr:
  "set visit \<subseteq> dom fs \<Longrightarrow> compile_filters pkg fs visit acc = Inr out \<Longrightarrow>
   \<exists>rs. out = acc @ rs \<and>
     list_all2 (\<lambda>p info. fs p = Some (level info) \<and> Compile pkg p = Inr (re info)) visit rs"
proof (induction visit arbitrary: acc)
  case Nil
  then show ?case by simp
next
  case (Cons p visit)
  from Cons.prems(1) obtain lv where lv: "fs p = Some lv" by auto
  from Cons.prems(2) lv obtain rx where rx: "Compile pkg p = Inr rx"
    by (cases "Compile pkg p") simp_all
  from Cons.prems(2) lv rx
  have "compile_filters pkg fs visit (acc @ [\<lparr>re = rx, level = lv\<rparr>]) = Inr out" by simp
  with Cons.IH [of "acc @ [\<lparr>re = rx, level = lv\<rparr>]"] Cons.prems(1)
  obtain rs where "out = (acc @ [\<lparr>re = rx, level = lv\<rparr>]) @ rs"
    and "list_all2 (\<lambda>p info. fs p = Some (level info) \<and> Compile pkg p = Inr (re info)) visit rs"
    by auto
  then show ?case using lv rx
    by (intro exI [of _ "\<lparr>re = rx, level = lv\<rparr> # rs"]) simp
qed

lemma compile_filters_all_valid:
  "\<forall>p \<in> set visit. \<exists>rx. Compile pkg p = Inr rx \<Longrightarrow> \<exists>out. compile_filters pkg fs visit acc = Inr out"
proof (induction visit arbitrary: acc)
  case Nil
  show ?case by simp
next
  case (Cons p visit)
  then obtain rx where rx: "Compile pkg p = Inr rx" by auto
  show ?case
  proof (cases "fs p")
    case None
    then show ?thesis using Cons by simp
  next
    case (Some lv)
    then show ?thesis using rx Cons.IH [of "acc @ [\<lparr>re = rx, level = lv\<rparr>]"] Cons.prems by simp
  qed
qed

lemma compile_filters_some_invalid:
  "set visit \<subseteq> dom fs \<Longrightarrow> \<exists>p \<in> set visit. \<exists>e. Compile pkg p = Inl e \<Longrightarrow>
   \<exists>p e. p \<in> set visit \<and> Compile pkg p = Inl e \<and>
      compile_filters pkg fs visit acc = Inl (invalid_regexp e p)"
proof (induction visit arbitrary: acc)
  case Nil
  then show ?case by simp
next
  case (Cons p visit)
  from Cons.prems(1) obtain lv where lv: "fs p = Some lv" by auto
  show ?case
  proof (cases "Compile pkg p")
    case (Inl e)
    then show ?thesis using lv by (intro exI [of _ p] exI [of _ e]) simp
  next
    case (Inr rx)
    with Cons.prems have "\<exists>q \<in> set visit. \<exists>e. Compile pkg q = Inl e" by auto
    with Cons.IH [of "acc @ [\<lparr>re = rx, level = lv\<rparr>]"] Cons.prems(1)
    obtain q e where "q \<in> set visit" "Compile pkg q = Inl e"
      "compile_filters pkg fs visit (acc @ [\<lparr>re = rx, level = lv\<rparr>]) = Inl (invalid_regexp e q)"
      by auto
    then show ?thesis using lv Inr by (intro exI [of _ q] exI [of _ e]) simp
  qed
qed

lemma New_success_iff:
  assumes "range_order fs visit"
  shows "(\<exists>m. NewLoggingMiddlewareWithFilters pkg lg fs visit = (Some m, None))
          \<longleftrightarrow> (\<forall>p \<in> dom fs. \<exists>rx. Compile pkg p = Inr rx)"
proof
  assume "\<exists>m. NewLoggingMiddlewareWithFilters pkg lg fs visit = (Some m, None)"
  then obtain out where out: "compile_filters pkg fs visit [] = Inr out"
    by (auto simp: NewLoggingMiddlewareWithFilters_def split: sum.splits)
  have sub: "set visit \<subseteq> dom fs" using assms by (simp add: range_order_def)
  show "\<forall>p \<in> dom fs. \<exists>rx. Compile pkg p = Inr rx"
  proof
    fix p assume "p \<in> dom fs"
    then have p: "p \<in> set visit" using assms by (simp add: range_order_def)
    show "\<exists>rx. Compile pkg p = Inr rx"
    proof (cases "Compile pkg p")
      case (Inl e)
      with compile_filters_some_invalid [OF sub, of pkg "[]"] p out show ?thesis by auto
    next
      case (Inr rx)
      then show ?thesis by blast
    qed
  qed
next
  assume "\<forall>p \<in> dom fs. \<exists>rx. Compile pkg p = Inr rx"
  then have "\<forall>p \<in> set visit. \<exists>rx. Compile pkg p = Inr rx"
    using assms by (simp add: range_order_def)
  from compile_filters_all_valid [OF this, of fs "[]"]
  show "\<exists>m. NewLoggingMiddlewareWithFilters pkg lg fs visit = (Some m, None)"
    by (auto simp: NewLoggingMiddlewareWithFilters_def)
qed

lemma New_failure:
  assumes "range_order fs visit" and "\<exists>p \<in> dom fs. \<exists>e. Compile pkg p = Inl e"
  shows "\<exists>p e. p \<in> dom fs \<and> Compile pkg p = Inl e \<and>
     NewLoggingMiddlewareWithFilters pkg lg fs visit = (None, Some (invalid_regexp e p))"
proof -
  have sub: "set visit \<subseteq> dom fs" and eq: "set visit = dom fs"
    using assms(1) by (simp_all add: range_order_def)
  from assms(2) eq have "\<exists>p \<in> set visit. \<exists>e. Compile pkg p = Inl e" by simp
  from compile_filters_some_invalid [OF sub this, of "[]"] eq
  show ?thesis by (auto simp: NewLoggingMiddlewareWithFilters_def)
qed

lemma overlapping_order_1: "range_order overlapping_filters [''^/a'', ''^/ab'']"
  by (auto simp add: range_order_def overlapping_filters_def)

lemma overlapping_order_2: "range_order overlapping_filters [''^/ab'', ''^/a'']"
  by (auto simp add: range_order_def overlapping_filters_def)

lemma overlapping_run_1:
  "NewLoggingMiddlewareWithFilters literal_regexp logrus_logger overlapping_filters
     [''^/a'', ''^/ab'']
     = (Some \<lparr>logger = logrus_logger,
              filters = [\<lparr>re = Literal True ''/a'', level = DebugLevel\<rparr>,
                         \<lparr>re = Literal True ''/ab'', level = ErrorLevel\<rparr>]\<rparr>, None)"
  by (simp add: NewLoggingMiddlewareWithFilters_def overlapping_filters_def literal_regexp_def
        literal_Compile_def meta_chars_def)

lemma overlapping_run_2:
  "NewLoggingMiddlewareWithFilters literal_regexp logrus_logger overlapping_filters
     [''^/ab'', ''^/a'']
     = (Some \<lparr>logger = logrus_logger,
              filters = [\<lparr>re = Literal True ''/ab'', level = ErrorLevel\<rparr>,
                         \<lparr>re = Literal True ''/a'', level = DebugLevel\<rparr>]\<rparr>, None)"
  by (simp add: NewLoggingMiddlewareWithFilters_def overlapping_filters_def literal_regexp_def
        literal_Compile_def meta_chars_def)

lemma broken_order_1: "range_order broken_filters [''^/a'', ''('']"
  by (auto simp add: range_order_def broken_filters_def)

lemma broken_order_2: "range_order broken_filters [''('', ''^/a'']"
  by (auto simp add: range_order_def broken_filters_def)

subsection \<open>The sample run\<close>

lemma sample_level:
  "SelectLevel literal_regexp (filters scenario_middleware) (Path (URL sample_request)) = ErrorLevel"
  by (simp add: SelectLevel_def scenario_middleware_def sample_request_def literal_regexp_def)

lemma sample_comes_back:
  "comes_back (logger scenario_middleware)
     (SelectLevel literal_regexp (filters scenario_middleware) (Path (URL sample_request)))"
  by (simp add: sample_level) (simp add: scenario_middleware_def logrus_logger_def)

lemma failing_handler_outcome:
  "outcome (failing_handler rw rq vars now) = Returned (Some (ErrorString ''boom''))"
  by (simp add: failing_handler_def)

lemma unkeyed_construct:
  "NewLoggingMiddlewareWithFilters literal_regexp logrus_logger unkeyed_filters [''^/a'']
     = (Some unkeyed_middleware, None)"
  by (simp add: NewLoggingMiddlewareWithFilters_def unkeyed_filters_def unkeyed_middleware_def
        literal_regexp_def literal_Compile_def meta_chars_def)

lemma unkeyed_level:
  "SelectLevel literal_regexp (filters unkeyed_middleware) (Path (URL sample_request))
     = OtherLevel 0"
  by (simp add: SelectLevel_def unkeyed_middleware_def sample_request_def literal_regexp_def)

lemma sample_key:
  "SelectLevel literal_regexp (filters scenario_middleware) (Path (URL sample_request))
     \<in> dom loggerFuncMap"
  by (simp add: sample_level dom_loggerFuncMap)

section \<open>The claims of the specification\<close>

text \<open>
  C1. Level selection goes through every filter in list order and does not stop at the
  first match: the level is that of the last filter, by position, whose expression
  matches the path, and Info when none matches. For the filters (\<^verbatim>\<open>^/a\<close>, Debug),
  (\<^verbatim>\<open>^/ab\<close>, Error) in this order and the path \<^verbatim>\<open>/abc\<close>, which both match, the level is
  Error.
\<close>

theorem SelectLevel_last_match_wins:
  "SelectLevel pkg fs path =
     (case filter (\<lambda>info. MatchString pkg (re info) path) fs of
        [] \<Rightarrow> InfoLevel
      | m # ms \<Rightarrow> level (last (m # ms)))
   \<and> (\<forall>i. i < length fs \<and> MatchString pkg (re (fs ! i)) path
          \<and> (\<forall>j. i < j \<and> j < length fs \<longrightarrow> \<not> MatchString pkg (re (fs ! j)) path)
        \<longrightarrow> SelectLevel pkg fs path = level (fs ! i))
   \<and> (MatchString pkg ra ''/abc'' \<and> MatchString pkg rb ''/abc''
        \<longrightarrow> SelectLevel pkg [\<lparr>re = ra, level = DebugLevel\<rparr>, \<lparr>re = rb, level = ErrorLevel\<rparr>] ''/abc''
            = ErrorLevel)"
proof (intro conjI allI impI)
  show "SelectLevel pkg fs path =
     (case filter (\<lambda>info. MatchString pkg (re info) path) fs of
        [] \<Rightarrow> InfoLevel
      | m # ms \<Rightarrow> level (last (m # ms)))"
    unfolding SelectLevel_def by (rule select_loop_filter)
next
  fix i
  assume h: "i < length fs \<and> MatchString pkg (re (fs ! i)) path
          \<and> (\<forall>j. i < j \<and> j < length fs \<longrightarrow> \<not> MatchString pkg (re (fs ! j)) path)"
  then show "SelectLevel pkg fs path = level (fs ! i)"
    unfolding SelectLevel_def by (intro select_loop_last_match) blast+
next
  assume "MatchString pkg ra ''/abc'' \<and> MatchString pkg rb ''/abc''"
  then show "SelectLevel pkg [\<lparr>re = ra, level = DebugLevel\<rparr>, \<lparr>re = rb, level = ErrorLevel\<rparr>] ''/abc''
            = ErrorLevel"
    by (simp add: SelectLevel_def)
qed


theorem SelectLevel_last_match_wins_witness:
  "Compile literal_regexp ''^/a'' = Inr (Literal True ''/a'')
   \<and> Compile literal_regexp ''^/ab'' = Inr (Literal True ''/ab'')
   \<and> MatchString literal_regexp (Literal True ''/a'') ''/abc''
   \<and> MatchString literal_regexp (Literal True ''/ab'') ''/abc''
   \<and> SelectLevel literal_regexp
        [\<lparr>re = Literal True ''/a'', level = DebugLevel\<rparr>,
         \<lparr>re = Literal True ''/ab'', level = ErrorLevel\<rparr>] ''/abc'' = ErrorLevel"
proof -
  have c: "Compile literal_regexp ''^/a'' = Inr (Literal True ''/a'')
      \<and> Compile literal_regexp ''^/ab'' = Inr (Literal True ''/ab'')"
    by (simp add: literal_regexp_def literal_Compile_def meta_chars_def)
  have m: "MatchString literal_regexp (Literal True ''/a'') ''/abc''
      \<and> MatchString literal_regexp (Literal True ''/ab'') ''/abc''"
    by (simp add: literal_regexp_def)
  from SelectLevel_last_match_wins
    [of literal_regexp "[]" "[]" "Literal True ''/a''" "Literal True ''/ab''"] m
  have "SelectLevel literal_regexp
        [\<lparr>re = Literal True ''/a'', level = DebugLevel\<rparr>,
         \<lparr>re = Literal True ''/ab'', level = ErrorLevel\<rparr>] ''/abc'' = ErrorLevel"
    by blast
  with c m show ?thesis by blast
qed

text \<open>
  C2. The claim: the filters the constructor builds are in the order given at
  construction, with no reordering and no deduplication. The argument is a Go map,
  which gives no order: the slice is in the order the range statement visits the map,
  and two visits of one map may differ. What holds: when the constructor returns a
  middleware, there is no error, and the slice has one filter for each entry of the
  map, with that entry's compiled pattern and level, in the order the entries were
  visited. The counterexample is one map visited in two orders.
\<close>

theorem NewLoggingMiddlewareWithFilters_rules_in_range_order:
  assumes "range_order fs visit"
    and "NewLoggingMiddlewareWithFilters pkg lg fs visit = (Some m, err)"
  shows "err = None \<and> logger m = lg \<and> length (filters m) = card (dom fs) \<and>
     list_all2 (\<lambda>p info. fs p = Some (level info) \<and> Compile pkg p = Inr (re info))
       visit (filters m)"
proof -
  from assms(2) obtain out where out: "compile_filters pkg fs visit [] = Inr out"
    and m: "m = \<lparr>logger = lg, filters = out\<rparr>" and e: "err = None"
    by (auto simp: NewLoggingMiddlewareWithFilters_def split: sum.splits)
  have sub: "set visit \<subseteq> dom fs" using assms(1) by (simp add: range_order_def)
  from compile_filters_Inr [OF sub out]
  have all2: "list_all2 (\<lambda>p info. fs p = Some (level info) \<and> Compile pkg p = Inr (re info)) visit out"
    by simp
  then have "length out = length visit" by (simp add: list_all2_lengthD)
  also have "\<dots> = card (dom fs)"
    using assms(1) by (metis range_order_def distinct_card)
  finally show ?thesis using all2 m e by simp
qed


theorem NewLoggingMiddlewareWithFilters_rules_in_range_order_witness:
  "range_order overlapping_filters [''^/ab'', ''^/a'']
   \<and> length [\<lparr>re = Literal True ''/ab'', level = ErrorLevel\<rparr>,
              \<lparr>re = Literal True ''/a'', level = DebugLevel\<rparr>] = card (dom overlapping_filters)
   \<and> list_all2
        (\<lambda>p info. overlapping_filters p = Some (level info)
                   \<and> Compile literal_regexp p = Inr (re info))
        [''^/ab'', ''^/a'']
        [\<lparr>re = Literal True ''/ab'', level = ErrorLevel\<rparr>,
         \<lparr>re = Literal True ''/a'', level = DebugLevel\<rparr>]"
  using NewLoggingMiddlewareWithFilters_rules_in_range_order
          [OF overlapping_order_2 overlapping_run_2]
        overlapping_order_2
  by simp

theorem NewLoggingMiddlewareWithFilters_order_counterexample:
  "range_order overlapping_filters [''^/a'', ''^/ab'']
   \<and> range_order overlapping_filters [''^/ab'', ''^/a'']
   \<and> NewLoggingMiddlewareWithFilters literal_regexp logrus_logger overlapping_filters
        [''^/a'', ''^/ab'']
       = (Some \<lparr>logger = logrus_logger,
                filters = [\<lparr>re = Literal True ''/a'', level = DebugLevel\<rparr>,
                           \<lparr>re = Literal True ''/ab'', level = ErrorLevel\<rparr>]\<rparr>, None)
   \<and> NewLoggingMiddlewareWithFilters literal_regexp logrus_logger overlapping_filters
        [''^/ab'', ''^/a'']
       = (Some \<lparr>logger = logrus_logger,
                filters = [\<lparr>re = Literal True ''/ab'', level = ErrorLevel\<rparr>,
                           \<lparr>re = Literal True ''/a'', level = DebugLevel\<rparr>]\<rparr>, None)
   \<and> NewLoggingMiddlewareWithFilters literal_regexp logrus_logger overlapping_filters
        [''^/a'', ''^/ab'']
       \<noteq> NewLoggingMiddlewareWithFilters literal_regexp logrus_logger overlapping_filters
        [''^/ab'', ''^/a'']"
  by (simp add: overlapping_order_1 overlapping_order_2 overlapping_run_1 overlapping_run_2)

text \<open>
  C3. For every map of patterns to levels and every order in which the range statement
  may visit it, the constructor succeeds when every pattern compiles, and when some
  pattern does not it returns no middleware and an invalid-regexp error for a pattern of
  the map that does not compile. Whether it succeeds is the same for every visiting
  order.
\<close>

theorem NewLoggingMiddlewareWithFilters_validates:
  assumes "range_order fs visit" and "range_order fs visit'"
  shows "((\<forall>p \<in> dom fs. \<exists>rx. Compile pkg p = Inr rx) \<longrightarrow>
            (\<exists>m. NewLoggingMiddlewareWithFilters pkg lg fs visit = (Some m, None)))
       \<and> ((\<exists>p \<in> dom fs. \<exists>e. Compile pkg p = Inl e) \<longrightarrow>
            (\<exists>p e. p \<in> dom fs \<and> Compile pkg p = Inl e \<and>
               NewLoggingMiddlewareWithFilters pkg lg fs visit = (None, Some (invalid_regexp e p))))
       \<and> (fst (NewLoggingMiddlewareWithFilters pkg lg fs visit) = None
            \<longleftrightarrow> fst (NewLoggingMiddlewareWithFilters pkg lg fs visit') = None)"
proof (intro conjI impI)
  assume "\<forall>p \<in> dom fs. \<exists>rx. Compile pkg p = Inr rx"
  then show "\<exists>m. NewLoggingMiddlewareWithFilters pkg lg fs visit = (Some m, None)"
    using New_success_iff [OF assms(1)] by blast
next
  assume "\<exists>p \<in> dom fs. \<exists>e. Compile pkg p = Inl e"
  then show "\<exists>p e. p \<in> dom fs \<and> Compile pkg p = Inl e \<and>
               NewLoggingMiddlewareWithFilters pkg lg fs visit = (None, Some (invalid_regexp e p))"
    by (rule New_failure [OF assms(1)])
next
  have *: "fst (NewLoggingMiddlewareWithFilters pkg lg fs v) = None
            \<longleftrightarrow> (\<exists>p \<in> dom fs. \<exists>e. Compile pkg p = Inl e)" if v: "range_order fs v" for v
  proof (cases "\<exists>p \<in> dom fs. \<exists>e. Compile pkg p = Inl e")
    case True
    with New_failure [OF v this, of lg] show ?thesis by auto
  next
    case False
    then have "\<forall>p \<in> dom fs. \<exists>rx. Compile pkg p = Inr rx"
      by (metis sum.exhaust)
    with New_success_iff [OF v, of pkg lg] False show ?thesis by auto
  qed
  show "fst (NewLoggingMiddlewareWithFilters pkg lg fs visit) = None
            \<longleftrightarrow> fst (NewLoggingMiddlewareWithFilters pkg lg fs visit') = None"
    using * [OF assms(1)] * [OF assms(2)] by simp
qed


theorem NewLoggingMiddlewareWithFilters_validates_witness:
  "range_order broken_filters [''^/a'', ''(''] \<and> range_order broken_filters [''('', ''^/a'']
   \<and> NewLoggingMiddlewareWithFilters literal_regexp logrus_logger broken_filters [''^/a'', ''('']
       = (None, Some (invalid_regexp (ErrorString ''error parsing regexp: ('') ''(''))
   \<and> fst (NewLoggingMiddlewareWithFilters literal_regexp logrus_logger broken_filters
            [''('', ''^/a'']) = None"
proof -
  note t = NewLoggingMiddlewareWithFilters_validates
    [OF broken_order_1 broken_order_2, of literal_regexp logrus_logger]
  note fails = t [THEN conjunct2, THEN conjunct1, rule_format]
  note same = t [THEN conjunct2, THEN conjunct2]
  have bad: "Compile literal_regexp ''('' = Inl (ErrorString ''error parsing regexp: ('')"
    by (simp add: literal_regexp_def literal_Compile_def meta_chars_def)
  have good: "Compile literal_regexp ''^/a'' = Inr (Literal True ''/a'')"
    by (simp add: literal_regexp_def literal_Compile_def meta_chars_def)
  have d: "dom broken_filters = {''^/a'', ''(''}"
    by (auto simp add: broken_filters_def)
  have "''('' \<in> dom broken_filters" by (simp add: d)
  with bad have "\<exists>p \<in> dom broken_filters. \<exists>e. Compile literal_regexp p = Inl e"
    by (intro bexI [of _ "''(''"] exI [of _ "ErrorString ''error parsing regexp: (''"])
  from fails [OF this] obtain p e
    where p: "p \<in> dom broken_filters" and e: "Compile literal_regexp p = Inl e"
    and r: "NewLoggingMiddlewareWithFilters literal_regexp logrus_logger broken_filters
              [''^/a'', ''(''] = (None, Some (invalid_regexp e p))"
    by (elim exE conjE)
  from p d have "p = ''^/a'' \<or> p = ''(''" by simp
  with e good have pe: "p = ''(''" by auto
  with e bad have "e = ErrorString ''error parsing regexp: (''" by simp
  with pe r have r1: "NewLoggingMiddlewareWithFilters literal_regexp logrus_logger
      broken_filters [''^/a'', ''('']
       = (None, Some (invalid_regexp (ErrorString ''error parsing regexp: ('') ''(''))"
    by simp
  then have "fst (NewLoggingMiddlewareWithFilters literal_regexp logrus_logger broken_filters
      [''^/a'', ''('']) = None"
    by simp
  with same have r2: "fst (NewLoggingMiddlewareWithFilters literal_regexp logrus_logger
      broken_filters [''('', ''^/a'']) = None"
    by simp
  from broken_order_1 broken_order_2 r1 r2 show ?thesis by (intro conjI)
qed

text \<open>
  C4. When the wrapped handler is called and returns an error value, the handler that
  Apply returns returns that same value, and the last things it does before are the
  return of the wrapped handler and the "request completed" entry. It never returns
  any other value: whatever it returns, the wrapped handler returned. The wrapped
  handler is called when the selected level is a key of \<^verbatim>\<open>loggerFuncMap\<close> and the
  "starting request" call comes back to the middleware; otherwise the run has ended
  at line 88 and nothing is returned.
\<close>

theorem Apply_relays_error:
  fixes l :: "'re LoggingMiddleware" and "next" :: "('w ResponseWriter) HandlerFunc"
    and pkg r w vars now
  defines "lv \<equiv> SelectLevel pkg (filters l) (Path (URL r))"
    and "r1 \<equiv> WithContext r (WithValue (Ctx r) ''logger'' (CtxLogger (request_logger (logger l) r)))"
  defines "res \<equiv> next (NewResponseWriter w) r1 vars now"
    and "run \<equiv> Apply pkg l next w r vars now"
  shows "(lv \<in> dom loggerFuncMap \<and> comes_back (logger l) lv \<and> outcome res = Returned err \<longrightarrow>
            outcome run = Returned err \<and>
            (\<exists>before_it fs. trace run =
                before_it @ [NextReturned err, Logged lv fs ''request completed'']))
       \<and> (outcome run = Returned err \<longrightarrow>
            lv \<in> dom loggerFuncMap \<and> comes_back (logger l) lv \<and> outcome res = Returned err)"
proof (intro conjI impI)
  have lv: "lv = SelectLevel pkg (filters l) (Path (URL r))" by (simp add: lv_def)
  have r1: "r1 = WithContext r (WithValue (Ctx r) ''logger'' (CtxLogger (request_logger (logger l) r)))"
    by (simp add: r1_def)
  have res: "res = next (NewResponseWriter w) r1 vars now" by (simp add: res_def)
  {
    assume h: "lv \<in> dom loggerFuncMap \<and> comes_back (logger l) lv \<and> outcome res = Returned err"
    then have key: "lv \<in> dom loggerFuncMap" and alive: "comes_back (logger l) lv"
      and ret: "outcome res = Returned err" by simp_all
    from Apply_next_returns [where ?next = "next" and w = w and vars = vars and now = now, OF lv r1 res key alive ret]
    obtain fmap where
      run: "run = \<lparr>trace = [Logged lv (Data (request_logger (logger l) r) ++ fmap) ''starting request'',
                 NextCalled r1] @ trace res @
                [NextReturned err,
                 Logged lv (Data (request_logger (logger l) r) ++ fmap ++
                            completion_fields (writer res) now (ended res))
                   ''request completed''],
        writer = wrapped (writer res), ended = ended res, outcome = Returned err\<rparr>"
      unfolding run_def by (elim exE conjE)
    show "outcome run = Returned err" by (simp add: run)
    have "trace run = ([Logged lv (Data (request_logger (logger l) r) ++ fmap) ''starting request'',
                 NextCalled r1] @ trace res) @
                [NextReturned err,
                 Logged lv (Data (request_logger (logger l) r) ++ fmap ++
                            completion_fields (writer res) now (ended res))
                   ''request completed'']"
      by (simp add: run)
    then show "\<exists>before_it fs. trace run =
                before_it @ [NextReturned err, Logged lv fs ''request completed'']"
      by (intro exI)
  }
  assume o: "outcome run = Returned err"
  show key: "lv \<in> dom loggerFuncMap"
  proof (rule ccontr)
    assume "lv \<notin> dom loggerFuncMap"
    from Apply_nil_func [OF lv this, of "next" w vars now] o show False
      by (simp add: run_def)
  qed
  show alive: "comes_back (logger l) lv"
  proof (rule ccontr)
    assume "\<not> comes_back (logger l) lv"
    from Apply_start_aborts [OF lv key this, of "next" w vars now] o show False
      by (auto simp: run_def)
  qed
  show "outcome res = Returned err"
  proof (cases "outcome res")
    case Aborted
    from Apply_next_aborts [where ?next = "next" and w = w and vars = vars and now = now, OF lv r1 res key alive Aborted] o
    show ?thesis by (auto simp: run_def)
  next
    case (Returned e)
    from Apply_next_returns [where ?next = "next" and w = w and vars = vars and now = now, OF lv r1 res key alive Returned] o
    show ?thesis by (auto simp: run_def Returned)
  qed
qed

theorem Apply_relays_error_witness:
  "outcome (Apply literal_regexp scenario_middleware failing_handler () sample_request Map.empty 0)
     = Returned (Some (ErrorString ''boom''))
   \<and> (\<exists>before_it fs.
        trace (Apply literal_regexp scenario_middleware failing_handler () sample_request Map.empty 0)
          = before_it @ [NextReturned (Some (ErrorString ''boom'')),
                         Logged ErrorLevel fs ''request completed''])"
  using Apply_relays_error
      [where pkg = literal_regexp and l = scenario_middleware and ?next = failing_handler
         and w = "()" and r = sample_request and vars = Map.empty and now = 0
         and err = "Some (ErrorString ''boom'')", THEN conjunct1]
    sample_key sample_comes_back failing_handler_outcome
  by (simp add: sample_level)

text \<open>
  C5. When the wrapped handler has been called (the selected level is a key of
  \<^verbatim>\<open>loggerFuncMap\<close> and the "starting request" call came back) and has returned, the
  \<^verbatim>\<open>status\<close> field of the "request completed" entry is 200 if the recorder's status is 0
  (the handler set none), and the recorder's status otherwise.
\<close>

theorem completed_status_default_200:
  fixes l :: "'re LoggingMiddleware" and "next" :: "('w ResponseWriter) HandlerFunc"
    and pkg r w vars now
  defines "lv \<equiv> SelectLevel pkg (filters l) (Path (URL r))"
    and "r1 \<equiv> WithContext r (WithValue (Ctx r) ''logger'' (CtxLogger (request_logger (logger l) r)))"
  defines "res \<equiv> next (NewResponseWriter w) r1 vars now"
    and "run \<equiv> Apply pkg l next w r vars now"
  assumes key: "lv \<in> dom loggerFuncMap"
    and alive: "comes_back (logger l) lv" and ret: "outcome res = Returned err"
  shows "\<exists>fs. last (trace run) = Logged lv fs ''request completed'' \<and>
           fs ''status'' =
             Some (FInt (if Status (writer res) = 0 then 200 else Status (writer res)))"
proof -
  have lv: "lv = SelectLevel pkg (filters l) (Path (URL r))" by (simp add: lv_def)
  have r1: "r1 = WithContext r (WithValue (Ctx r) ''logger'' (CtxLogger (request_logger (logger l) r)))"
    by (simp add: r1_def)
  have res: "res = next (NewResponseWriter w) r1 vars now" by (simp add: res_def)
  from Apply_next_returns [where ?next = "next" and w = w and vars = vars and now = now,
      OF lv r1 res key alive ret]
  obtain fmap where
    run: "run = \<lparr>trace = [Logged lv (Data (request_logger (logger l) r) ++ fmap) ''starting request'',
                 NextCalled r1] @ trace res @
                [NextReturned err,
                 Logged lv (Data (request_logger (logger l) r) ++ fmap ++
                            completion_fields (writer res) now (ended res))
                   ''request completed''],
        writer = wrapped (writer res), ended = ended res, outcome = Returned err\<rparr>"
    unfolding run_def by (elim exE conjE)
  have e: "last (trace run) =
      Logged lv (Data (request_logger (logger l) r) ++ fmap ++
                 completion_fields (writer res) now (ended res)) ''request completed''"
    by (simp add: run)
  have s: "(Data (request_logger (logger l) r) ++ fmap ++
       completion_fields (writer res) now (ended res)) ''status'' =
         Some (FInt (if Status (writer res) = 0 then 200 else Status (writer res)))"
    by (simp only: completion_fields_status resolve_status_def)
  show ?thesis
    by (rule exI [of _ "Data (request_logger (logger l) r) ++ fmap ++
                 completion_fields (writer res) now (ended res)"]) (intro conjI e s)
qed

theorem completed_status_default_200_witness:
  "\<exists>fs. last (trace (Apply literal_regexp scenario_middleware failing_handler ()
                        sample_request Map.empty 0))
          = Logged ErrorLevel fs ''request completed''
        \<and> fs ''status'' = Some (FInt 200)"
  using completed_status_default_200
      [where pkg = literal_regexp and l = scenario_middleware and ?next = failing_handler
         and w = "()" and r = sample_request and vars = Map.empty and now = 0
         and err = "Some (ErrorString ''boom'')",
       OF sample_key sample_comes_back failing_handler_outcome]
  by (simp add: sample_level failing_handler_def NewResponseWriter_def)

text \<open>
  C6. The field map built from a request, for every order in which the deleting loop
  may visit it, has no key with the empty string as value, and no \<^verbatim>\<open>referer\<close> key when
  the request has no Referer header. Each of the seven keys is absent when the
  request's value is empty and holds that value unchanged otherwise: the method, the
  URL's string, the host, the remote address, the protocol, and the first values of
  the Referer and User-Agent headers. There is no other key.
\<close>

theorem BuildFields_omits_empty:
  assumes "range_order (field_literal r) visit"
  shows "\<exists>fmap. BuildFields visit r = Some fmap
     \<and> (\<forall>k. fmap k \<noteq> Some (FString []))
     \<and> (Header r ''Referer'' = None \<longrightarrow> ''referer'' \<notin> dom fmap)
     \<and> fmap ''method'' = (if Method r = [] then None else Some (FString (Method r)))
     \<and> fmap ''path'' =
          (if url_String (URL r) = [] then None else Some (FString (url_String (URL r))))
     \<and> fmap ''host'' = (if Host r = [] then None else Some (FString (Host r)))
     \<and> fmap ''from'' = (if RemoteAddr r = [] then None else Some (FString (RemoteAddr r)))
     \<and> fmap ''protocol'' = (if Proto r = [] then None else Some (FString (Proto r)))
     \<and> fmap ''referer'' = (if Referer r = [] then None else Some (FString (Referer r)))
     \<and> fmap ''user_agent'' =
          (if UserAgent r = [] then None else Some (FString (UserAgent r)))
     \<and> (\<forall>v vs. Header r ''Referer'' = Some (v # vs) \<longrightarrow> Referer r = v)
     \<and> (\<forall>v vs. Header r ''User-Agent'' = Some (v # vs) \<longrightarrow> UserAgent r = v)
     \<and> dom fmap \<subseteq>
          {''method'', ''path'', ''host'', ''from'', ''protocol'', ''referer'', ''user_agent''}"
proof -
  let ?kept = "\<lambda>k. if field_literal r k = Some (FString []) then None else field_literal r k"
  have b: "BuildFields visit r = Some ?kept" by (rule BuildFields_eq [OF assms])
  have 1: "\<forall>k. ?kept k \<noteq> Some (FString [])" by simp
  have 2: "Header r ''Referer'' = None \<longrightarrow> ''referer'' \<notin> dom ?kept"
    by (simp add: field_literal_def Referer_def Header_Get_def dom_def)
  have m: "?kept ''method'' = (if Method r = [] then None else Some (FString (Method r)))"
    by (simp add: field_literal_def)
  have p: "?kept ''path'' =
          (if url_String (URL r) = [] then None else Some (FString (url_String (URL r))))"
    by (simp add: field_literal_def)
  have h: "?kept ''host'' = (if Host r = [] then None else Some (FString (Host r)))"
    by (simp add: field_literal_def)
  have f: "?kept ''from'' = (if RemoteAddr r = [] then None else Some (FString (RemoteAddr r)))"
    by (simp add: field_literal_def)
  have q: "?kept ''protocol'' = (if Proto r = [] then None else Some (FString (Proto r)))"
    by (simp add: field_literal_def)
  have e: "?kept ''referer'' = (if Referer r = [] then None else Some (FString (Referer r)))"
    by (simp add: field_literal_def)
  have u: "?kept ''user_agent'' =
      (if UserAgent r = [] then None else Some (FString (UserAgent r)))"
    by (simp add: field_literal_def)
  have hr: "\<forall>v vs. Header r ''Referer'' = Some (v # vs) \<longrightarrow> Referer r = v"
    by (simp add: Referer_def Header_Get_def)
  have hu: "\<forall>v vs. Header r ''User-Agent'' = Some (v # vs) \<longrightarrow> UserAgent r = v"
    by (simp add: UserAgent_def Header_Get_def)
  have 3: "dom ?kept \<subseteq>
          {''method'', ''path'', ''host'', ''from'', ''protocol'', ''referer'', ''user_agent''}"
  proof -
    have "dom ?kept \<subseteq> set field_keys"
      using dom_field_literal [of r] by (auto split: if_splits)
    moreover have "set field_keys =
        {''method'', ''path'', ''host'', ''from'', ''protocol'', ''referer'', ''user_agent''}"
      by (simp add: field_keys_def)
    ultimately show ?thesis by (simp only:)
  qed
  show ?thesis
    by (rule exI [of _ ?kept]) (intro conjI b 1 2 m p h f q e u hr hu 3)
qed

theorem BuildFields_omits_empty_witness:
  "range_order (field_literal sample_request) field_keys
   \<and> Header sample_request ''Referer'' = None
   \<and> (\<exists>fmap. BuildFields field_keys sample_request = Some fmap
        \<and> ''referer'' \<notin> dom fmap
        \<and> fmap ''method'' = Some (FString ''GET'')
        \<and> fmap ''path'' = Some (FString ''/abc?x=1'')
        \<and> fmap ''user_agent'' = Some (FString ''curl''))"
proof -
  have h: "Header sample_request ''Referer'' = None" by (simp add: sample_request_def)
  have ua: "Header sample_request ''User-Agent'' = Some (''curl'' # [])"
    by (simp add: sample_request_def)
  from BuildFields_omits_empty [OF range_order_field_keys, of sample_request]
  obtain fmap where all: "BuildFields field_keys sample_request = Some fmap
     \<and> (\<forall>k. fmap k \<noteq> Some (FString []))
     \<and> (Header sample_request ''Referer'' = None \<longrightarrow> ''referer'' \<notin> dom fmap)
     \<and> fmap ''method'' = (if Method sample_request = [] then None else Some (FString (Method sample_request)))
     \<and> fmap ''path'' =
          (if url_String (URL sample_request) = [] then None else Some (FString (url_String (URL sample_request))))
     \<and> fmap ''host'' = (if Host sample_request = [] then None else Some (FString (Host sample_request)))
     \<and> fmap ''from'' = (if RemoteAddr sample_request = [] then None else Some (FString (RemoteAddr sample_request)))
     \<and> fmap ''protocol'' = (if Proto sample_request = [] then None else Some (FString (Proto sample_request)))
     \<and> fmap ''referer'' = (if Referer sample_request = [] then None else Some (FString (Referer sample_request)))
     \<and> fmap ''user_agent'' =
          (if UserAgent sample_request = [] then None else Some (FString (UserAgent sample_request)))
     \<and> (\<forall>v vs. Header sample_request ''Referer'' = Some (v # vs) \<longrightarrow> Referer sample_request = v)
     \<and> (\<forall>v vs. Header sample_request ''User-Agent'' = Some (v # vs) \<longrightarrow> UserAgent sample_request = v)
     \<and> dom fmap \<subseteq>
          {''method'', ''path'', ''host'', ''from'', ''protocol'', ''referer'', ''user_agent''}"
    by (rule exE)
  from all have b: "BuildFields field_keys sample_request = Some fmap" by (rule conjunct1)
  from all h have n: "''referer'' \<notin> dom fmap" by simp
  from all have m: "fmap ''method'' = Some (FString ''GET'')"
    by (simp add: sample_request_def)
  from all have p: "fmap ''path'' = Some (FString ''/abc?x=1'')"
    by (simp add: sample_request_def)
  from all ua have u: "fmap ''user_agent'' = Some (FString ''curl'')"
    by simp
  have "\<exists>fmap. BuildFields field_keys sample_request = Some fmap
        \<and> ''referer'' \<notin> dom fmap
        \<and> fmap ''method'' = Some (FString ''GET'')
        \<and> fmap ''path'' = Some (FString ''/abc?x=1'')
        \<and> fmap ''user_agent'' = Some (FString ''curl'')"
    by (rule exI [of _ fmap]) (intro conjI b n m p u)
  with h range_order_field_keys [of sample_request] show ?thesis by (intro conjI)
qed

text \<open>
  C7. When no filter of the middleware matches the request path, level selection
  returns Info.
\<close>

theorem SelectLevel_default_Info:
  "(\<forall>info \<in> set fs. \<not> MatchString pkg (re info) path) \<Longrightarrow> SelectLevel pkg fs path = InfoLevel"
  unfolding SelectLevel_def by (rule select_loop_no_match) blast


theorem SelectLevel_default_Info_witness:
  "\<not> MatchString literal_regexp (Literal True ''/admin'') ''/public'' \<and>
   SelectLevel literal_regexp [\<lparr>re = Literal True ''/admin'', level = WarnLevel\<rparr>] ''/public''
     = InfoLevel"
proof -
  have h: "\<forall>info \<in> set [\<lparr>re = Literal True ''/admin'', level = WarnLevel\<rparr>].
      \<not> MatchString literal_regexp (re info) ''/public''"
    by (simp add: literal_regexp_def)
  from SelectLevel_default_Info [OF h] h show ?thesis by simp
qed

text \<open>
  C8. A middleware built by NewLoggingMiddleware has no filter: for every request the
  level is Info, the "starting request" entry is logged at Info, the "request
  completed" entry is logged at Info once the wrapped handler has returned, and every
  entry in the run that is not the wrapped handler's own is at Info.
\<close>

theorem NewLoggingMiddleware_logs_at_Info:
  fixes "next" :: "('w ResponseWriter) HandlerFunc" and pkg :: "'re regexp_pkg"
    and lg r w vars now
  defines "l \<equiv> NewLoggingMiddleware lg"
    and "r1 \<equiv> WithContext r (WithValue (Ctx r) ''logger'' (CtxLogger (request_logger lg r)))"
  defines "res \<equiv> next (NewResponseWriter w) r1 vars now"
    and "run \<equiv> Apply pkg l next w r vars now"
  shows "SelectLevel pkg (filters l) (Path (URL r)) = InfoLevel
     \<and> (\<exists>fs rest. trace run = Logged InfoLevel fs ''starting request'' # rest)
     \<and> (comes_back lg InfoLevel \<and> outcome res = Returned err \<longrightarrow>
          (\<exists>fs. last (trace run) = Logged InfoLevel fs ''request completed''))
     \<and> (\<forall>lv fs msg. Logged lv fs msg \<in> set (trace run)
                  \<and> Logged lv fs msg \<notin> set (trace res) \<longrightarrow> lv = InfoLevel)"
proof -
  have lv: "InfoLevel = SelectLevel pkg (filters l) (Path (URL r))"
    by (simp add: l_def NewLoggingMiddleware_def SelectLevel_no_filters)
  have lg: "logger l = lg" by (simp add: l_def NewLoggingMiddleware_def)
  have r1: "r1 = WithContext r (WithValue (Ctx r) ''logger'' (CtxLogger (request_logger (logger l) r)))"
    by (simp add: r1_def lg)
  have res: "res = next (NewResponseWriter w) r1 vars now" by (simp add: res_def)
  have key: "InfoLevel \<in> dom loggerFuncMap" by (simp add: dom_loggerFuncMap)
  from Apply_run_key [where ?next = "next" and w = w and vars = vars and now = now, OF lv r1 res key]
  obtain fmap where
    run: "run =
      (if \<not> comes_back (logger l) InfoLevel
       then \<lparr>trace = [Logged InfoLevel (Data (request_logger (logger l) r) ++ fmap) ''starting request''],
             writer = w, ended = now, outcome = Aborted\<rparr>
       else case outcome res of
          Aborted \<Rightarrow>
            \<lparr>trace = [Logged InfoLevel (Data (request_logger (logger l) r) ++ fmap) ''starting request'',
                      NextCalled r1] @ trace res,
             writer = wrapped (writer res), ended = ended res, outcome = Aborted\<rparr>
        | Returned err \<Rightarrow>
            \<lparr>trace = [Logged InfoLevel (Data (request_logger (logger l) r) ++ fmap) ''starting request'',
                      NextCalled r1] @ trace res @
               [NextReturned err,
                Logged InfoLevel (Data (request_logger (logger l) r) ++ fmap ++
                    completion_fields (writer res) now (ended res)) ''request completed''],
             writer = wrapped (writer res), ended = ended res, outcome = Returned err\<rparr>)"
    unfolding run_def by (elim exE conjE)
  have first: "\<exists>fs rest. trace run = Logged InfoLevel fs ''starting request'' # rest"
    by (cases "outcome res") (simp_all add: run)
  have final: "comes_back lg InfoLevel \<and> outcome res = Returned err \<longrightarrow>
          (\<exists>fs. last (trace run) = Logged InfoLevel fs ''request completed'')"
    by (simp add: run lg)
  have own: "\<forall>lv fs msg. Logged lv fs msg \<in> set (trace run)
                  \<and> Logged lv fs msg \<notin> set (trace res) \<longrightarrow> lv = InfoLevel"
    by (cases "outcome res") (auto simp add: run)
  from lv [symmetric] first final own show ?thesis by (intro conjI)
qed

theorem NewLoggingMiddleware_logs_at_Info_witness:
  "(\<exists>fs rest.
      trace (Apply literal_regexp (NewLoggingMiddleware logrus_logger) failing_handler ()
               sample_request Map.empty 0)
        = Logged InfoLevel fs ''starting request'' # rest)
   \<and> (\<exists>fs.
      last (trace (Apply literal_regexp (NewLoggingMiddleware logrus_logger) failing_handler ()
               sample_request Map.empty 0))
        = Logged InfoLevel fs ''request completed'')"
proof -
  note t = NewLoggingMiddleware_logs_at_Info
      [where pkg = literal_regexp and lg = logrus_logger and ?next = failing_handler
         and w = "()" and r = sample_request and vars = Map.empty and now = 0
         and err = "Some (ErrorString ''boom'')"]
  have alive: "comes_back logrus_logger InfoLevel" by (simp add: logrus_logger_def)
  note a = t [THEN conjunct2, THEN conjunct1]
  note b = t [THEN conjunct2, THEN conjunct2, THEN conjunct1, rule_format,
      OF conjI, OF alive failing_handler_outcome]
  from a b show ?thesis by (intro conjI)
qed

text \<open>
  C9. The events of a run are in this order: the "starting request" entry, the call of
  the wrapped handler, the wrapped handler's own events, its return, the "request
  completed" entry. A run that ends early is a prefix of this: it is empty when the
  selected level is not a key of \<^verbatim>\<open>loggerFuncMap\<close> (the call of line 88 is a call of the
  nil function), it is the first entry alone when that logging call does not come
  back, and it stops with the wrapped handler's events when the wrapped handler does
  not come back. So no entry "request completed" comes before the wrapped handler has
  returned, and the wrapped handler is not called before the "starting request" entry.
\<close>

theorem Apply_entry_order:
  fixes l :: "'re LoggingMiddleware" and "next" :: "('w ResponseWriter) HandlerFunc"
    and pkg r w vars now
  defines "lv \<equiv> SelectLevel pkg (filters l) (Path (URL r))"
    and "r1 \<equiv> WithContext r (WithValue (Ctx r) ''logger'' (CtxLogger (request_logger (logger l) r)))"
  defines "res \<equiv> next (NewResponseWriter w) r1 vars now"
    and "run \<equiv> Apply pkg l next w r vars now"
  shows "\<exists>fs1 fs2. trace run =
     (if lv \<notin> dom loggerFuncMap then []
      else if \<not> comes_back (logger l) lv then [Logged lv fs1 ''starting request'']
      else case outcome res of
         Aborted \<Rightarrow> [Logged lv fs1 ''starting request'', NextCalled r1] @ trace res
       | Returned err \<Rightarrow>
           [Logged lv fs1 ''starting request'', NextCalled r1] @ trace res @
           [NextReturned err, Logged lv fs2 ''request completed''])"
proof (cases "lv \<in> dom loggerFuncMap")
  case False
  have lv: "lv = SelectLevel pkg (filters l) (Path (URL r))" by (simp add: lv_def)
  from Apply_nil_func [OF lv False, of "next" w vars now]
  have "trace run = []" by (simp add: run_def)
  then show ?thesis using False by simp
next
  case True
  have lv: "lv = SelectLevel pkg (filters l) (Path (URL r))" by (simp add: lv_def)
  have r1: "r1 = WithContext r (WithValue (Ctx r) ''logger'' (CtxLogger (request_logger (logger l) r)))"
    by (simp add: r1_def)
  have res: "res = next (NewResponseWriter w) r1 vars now" by (simp add: res_def)
  from Apply_run_key [where ?next = "next" and w = w and vars = vars and now = now, OF lv r1 res True]
  obtain fmap where
    run: "run =
      (if \<not> comes_back (logger l) lv
       then \<lparr>trace = [Logged lv (Data (request_logger (logger l) r) ++ fmap) ''starting request''],
             writer = w, ended = now, outcome = Aborted\<rparr>
       else case outcome res of
          Aborted \<Rightarrow>
            \<lparr>trace = [Logged lv (Data (request_logger (logger l) r) ++ fmap) ''starting request'',
                      NextCalled r1] @ trace res,
             writer = wrapped (writer res), ended = ended res, outcome = Aborted\<rparr>
        | Returned err \<Rightarrow>
            \<lparr>trace = [Logged lv (Data (request_logger (logger l) r) ++ fmap) ''starting request'',
                      NextCalled r1] @ trace res @
               [NextReturned err,
                Logged lv (Data (request_logger (logger l) r) ++ fmap ++
                    completion_fields (writer res) now (ended res)) ''request completed''],
             writer = wrapped (writer res), ended = ended res, outcome = Returned err\<rparr>)"
    unfolding run_def by (elim exE conjE)
  show ?thesis
    apply (rule exI [of _ "Data (request_logger (logger l) r) ++ fmap"])
    apply (rule exI [of _ "Data (request_logger (logger l) r) ++ fmap ++
                    completion_fields (writer res) now (ended res)"])
    apply (cases "outcome res")
     apply (simp_all add: run True)
    done
qed

theorem Apply_entry_order_witness:
  "(\<exists>fs1 fs2.
     trace (Apply literal_regexp scenario_middleware failing_handler () sample_request Map.empty 0)
     = [Logged ErrorLevel fs1 ''starting request'',
        NextCalled (WithContext sample_request
          (WithValue (Ctx sample_request) ''logger''
             (CtxLogger (request_logger logrus_logger sample_request)))),
        NextReturned (Some (ErrorString ''boom'')),
        Logged ErrorLevel fs2 ''request completed''])
   \<and> NewLoggingMiddlewareWithFilters literal_regexp logrus_logger unkeyed_filters [''^/a'']
        = (Some unkeyed_middleware, None)
   \<and> trace (Apply literal_regexp unkeyed_middleware failing_handler () sample_request Map.empty 0)
        = []"
proof -
  have a: "\<exists>fs1 fs2.
     trace (Apply literal_regexp scenario_middleware failing_handler () sample_request Map.empty 0)
     = [Logged ErrorLevel fs1 ''starting request'',
        NextCalled (WithContext sample_request
          (WithValue (Ctx sample_request) ''logger''
             (CtxLogger (request_logger logrus_logger sample_request)))),
        NextReturned (Some (ErrorString ''boom'')),
        Logged ErrorLevel fs2 ''request completed'']"
    using Apply_entry_order
      [where pkg = literal_regexp and l = scenario_middleware and ?next = failing_handler
         and w = "()" and r = sample_request and vars = Map.empty and now = 0]
      sample_comes_back sample_key
    by (simp add: sample_level failing_handler_def) (simp add: scenario_middleware_def)
  have b: "trace (Apply literal_regexp unkeyed_middleware failing_handler () sample_request
      Map.empty 0) = []"
    using Apply_entry_order
      [where pkg = literal_regexp and l = unkeyed_middleware and ?next = failing_handler
         and w = "()" and r = sample_request and vars = Map.empty and now = 0]
    by (simp add: unkeyed_level OtherLevel_no_key)
  from a unkeyed_construct b show ?thesis by (intro conjI)
qed

text \<open>
  C10. The request given to the wrapped handler (the wrapped handler is applied to no
  other) holds, under the context key \<^verbatim>\<open>logger\<close>, the middleware's logger with the field
  \<^verbatim>\<open>request_id\<close> added when the incoming context holds a string under \<^verbatim>\<open>request_id\<close>, and
  unchanged otherwise. On the seven metadata keys it holds what the middleware's own
  logger holds, so it has none of them when that logger has none: the metadata of the
  request is attached afterwards, to the logger used for the two entries only.
\<close>

theorem context_logger_has_request_id_only:
  fixes l :: "'re LoggingMiddleware" and "next" :: "('w ResponseWriter) HandlerFunc"
    and pkg r w vars now
  defines "lv \<equiv> SelectLevel pkg (filters l) (Path (URL r))"
    and "stored \<equiv> request_logger (logger l) r"
  defines "r1 \<equiv> WithContext r (WithValue (Ctx r) ''logger'' (CtxLogger stored))"
    and "run \<equiv> Apply pkg l next w r vars now"
  shows "Ctx r1 ''logger'' = Some (CtxLogger stored)
     \<and> (lv \<in> dom loggerFuncMap \<and> comes_back (logger l) lv \<longrightarrow> trace run ! 1 = NextCalled r1)
     \<and> (\<forall>other. other (NewResponseWriter w) r1 vars now = next (NewResponseWriter w) r1 vars now
            \<longrightarrow> Apply pkg l other w r vars now = run)
     \<and> (Ctx r ''request_id'' = Some (CtxString rid) \<longrightarrow>
          stored = WithField ''request_id'' (FString rid) (logger l)
          \<and> Data stored ''request_id'' = Some (FString rid))
     \<and> ((\<forall>rid. Ctx r ''request_id'' \<noteq> Some (CtxString rid)) \<longrightarrow> stored = logger l)
     \<and> (\<forall>k \<in> set field_keys. Data stored k = Data (logger l) k)
     \<and> ((\<forall>k \<in> {''method'', ''path'', ''host'', ''from'', ''protocol'', ''referer'', ''user_agent''}.
            k \<notin> dom (Data (logger l)))
          \<longrightarrow> (\<forall>k \<in> {''method'', ''path'', ''host'', ''from'', ''protocol'', ''referer'',
                        ''user_agent''}. k \<notin> dom (Data stored)))"
proof (intro conjI)
  show "Ctx r1 ''logger'' = Some (CtxLogger stored)"
    by (simp add: r1_def WithContext_def WithValue_def)
next
  show "lv \<in> dom loggerFuncMap \<and> comes_back (logger l) lv \<longrightarrow> trace run ! 1 = NextCalled r1"
  proof
    assume h: "lv \<in> dom loggerFuncMap \<and> comes_back (logger l) lv"
    then have key: "lv \<in> dom loggerFuncMap" and alive: "comes_back (logger l) lv" by simp_all
    have lv: "lv = SelectLevel pkg (filters l) (Path (URL r))" by (simp add: lv_def)
    have r1: "r1 = WithContext r (WithValue (Ctx r) ''logger'' (CtxLogger (request_logger (logger l) r)))"
      by (simp add: r1_def stored_def)
    show "trace run ! 1 = NextCalled r1"
    proof (cases "outcome (next (NewResponseWriter w) r1 vars now)")
      case Aborted
      from Apply_next_aborts [where ?next = "next" and w = w and vars = vars and now = now,
          OF lv r1 refl key alive Aborted]
      show ?thesis by (auto simp: run_def)
    next
      case (Returned e)
      from Apply_next_returns [where ?next = "next" and w = w and vars = vars and now = now,
          OF lv r1 refl key alive Returned]
      show ?thesis by (auto simp: run_def)
    qed
  qed
next
  show "\<forall>other. other (NewResponseWriter w) r1 vars now = next (NewResponseWriter w) r1 vars now
            \<longrightarrow> Apply pkg l other w r vars now = run"
    unfolding run_def r1_def stored_def by (intro allI impI) (rule Apply_next_only_at)
next
  show "Ctx r ''request_id'' = Some (CtxString rid) \<longrightarrow>
          stored = WithField ''request_id'' (FString rid) (logger l)
          \<and> Data stored ''request_id'' = Some (FString rid)"
    by (simp add: stored_def request_logger_def WithField_def)
next
  show "(\<forall>rid. Ctx r ''request_id'' \<noteq> Some (CtxString rid)) \<longrightarrow> stored = logger l"
    by (auto simp add: stored_def request_logger_def split: option.splits ctx_value.splits)
next
  show same: "\<forall>k \<in> set field_keys. Data stored k = Data (logger l) k"
  proof
    fix k assume "k \<in> set field_keys"
    then have "k \<noteq> ''request_id''" by (auto simp: field_keys_def)
    then show "Data stored k = Data (logger l) k"
      unfolding stored_def by (rule request_logger_keeps_other_fields)
  qed
  show "(\<forall>k \<in> {''method'', ''path'', ''host'', ''from'', ''protocol'', ''referer'', ''user_agent''}.
            k \<notin> dom (Data (logger l)))
          \<longrightarrow> (\<forall>k \<in> {''method'', ''path'', ''host'', ''from'', ''protocol'', ''referer'',
                        ''user_agent''}. k \<notin> dom (Data stored))"
    using same by (simp add: field_keys_def domIff)
qed

theorem context_logger_has_request_id_only_witness:
  "Ctx sample_request ''request_id'' = Some (CtxString ''r-42'')
   \<and> trace (Apply literal_regexp scenario_middleware failing_handler () sample_request Map.empty 0) ! 1
       = NextCalled (WithContext sample_request
          (WithValue (Ctx sample_request) ''logger''
             (CtxLogger (request_logger logrus_logger sample_request))))
   \<and> Data (request_logger logrus_logger sample_request) ''request_id'' = Some (FString ''r-42'')
   \<and> ''method'' \<notin> dom (Data (request_logger logrus_logger sample_request))
   \<and> ''path'' \<notin> dom (Data (request_logger logrus_logger sample_request))
   \<and> ''user_agent'' \<notin> dom (Data (request_logger logrus_logger sample_request))"
proof -
  note t = context_logger_has_request_id_only
      [where pkg = literal_regexp and l = scenario_middleware and ?next = failing_handler
         and w = "()" and r = sample_request and vars = Map.empty and now = 0
         and rid = "''r-42''"]
  have lg: "logger scenario_middleware = logrus_logger" by (simp add: scenario_middleware_def)
  have rid: "Ctx sample_request ''request_id'' = Some (CtxString ''r-42'')"
    by (simp add: sample_request_def)
  from t [THEN conjunct2, THEN conjunct1, rule_format, OF conjI, OF sample_key sample_comes_back]
  have c: "trace (Apply literal_regexp scenario_middleware failing_handler () sample_request Map.empty 0) ! 1
       = NextCalled (WithContext sample_request
          (WithValue (Ctx sample_request) ''logger''
             (CtxLogger (request_logger logrus_logger sample_request))))"
    by (simp only: lg)
  from t [THEN conjunct2, THEN conjunct2, THEN conjunct2, THEN conjunct1, rule_format, OF rid,
      THEN conjunct2]
  have i: "Data (request_logger logrus_logger sample_request) ''request_id'' = Some (FString ''r-42'')"
    by (simp only: lg)
  have bare: "\<forall>k \<in> {''method'', ''path'', ''host'', ''from'', ''protocol'', ''referer'',
      ''user_agent''}. k \<notin> dom (Data (logger scenario_middleware))"
    by (simp add: lg logrus_logger_def)
  from t [THEN conjunct2, THEN conjunct2, THEN conjunct2, THEN conjunct2, THEN conjunct2,
      THEN conjunct2, THEN mp, OF bare]
  have absent: "\<forall>k \<in> {''method'', ''path'', ''host'', ''from'', ''protocol'', ''referer'',
      ''user_agent''}. k \<notin> dom (Data (request_logger logrus_logger sample_request))"
    by (simp only: lg)
  have m: "''method'' \<notin> dom (Data (request_logger logrus_logger sample_request))"
    by (rule absent [THEN bspec]) simp
  have p: "''path'' \<notin> dom (Data (request_logger logrus_logger sample_request))"
    by (rule absent [THEN bspec]) simp
  have u: "''user_agent'' \<notin> dom (Data (request_logger logrus_logger sample_request))"
    by (rule absent [THEN bspec]) simp
  from rid c i m p u show ?thesis by (intro conjI)
qed

end
